theory Spec2Isabelle
  imports Main "HOL-Library.Word" "HOL-Library.Sublist"
begin

section \<open>Data model of package feedtrigger\<close>

text \<open>
  Go's \<^verbatim>\<open>error\<close> values. \<^verbatim>\<open>fmt.Errorf("ctx: %w", err)\<close> wraps \<open>err\<close> under a context
  string and keeps the wrapped error reachable; \<open>Wrap ctx err\<close> is that value.
\<close>

datatype error = Err string | Wrap string error

text \<open>
  \<^verbatim>\<open>time.Duration\<close> is an \<^verbatim>\<open>int64\<close> count of nanoseconds; the constants are those of
  Go's \<^verbatim>\<open>time\<close> package.
\<close>

type_synonym Duration = "64 word"

definition Nanosecond :: Duration where "Nanosecond = 1"
definition Microsecond :: Duration where "Microsecond = 1000 * Nanosecond"
definition Millisecond :: Duration where "Millisecond = 1000 * Microsecond"
definition Second :: Duration where "Second = 1000 * Millisecond"
definition Minute :: Duration where "Minute = 60 * Second"

text \<open>
  The fields of \<^verbatim>\<open>gofeed.Person\<close> and \<^verbatim>\<open>gofeed.Item\<close> that the package reads. The
  \<^verbatim>\<open>Item\<close> fields are prefixed, since \<^verbatim>\<open>FeedHead\<close> below has fields of the same names.
\<close>

record Person =
  Name :: string
  Email :: string

record Item =
  ItemTitle :: string
  ItemUpdated :: string
  ItemPublished :: string
  ItemLink :: string
  ItemAuthor :: "Person option"

text \<open>
  \<^verbatim>\<open>type NewItemAction func(*gofeed.Item) error\<close>: an arbitrary side-effecting function
  that receives a pointer to the item. Through that pointer, and through the pointers
  it has kept from the earlier calls of the cycle, it can read and change the items
  handed to it so far; the parser allocates the items of a fetch afresh, so nothing else
  points to them. A call receives the items of the earlier calls as they are now, the
  item it is for, and the user's state \<open>'w\<close>; it returns the error (\<open>None\<close> for \<^verbatim>\<open>nil\<close>),
  the writes it made through its pointers, and the new user's state. A write \<open>(k, v)\<close>
  stores \<open>v\<close> in the item at index \<open>k\<close> of \<^verbatim>\<open>feed.Items\<close>. A Go function value may
  itself be \<^verbatim>\<open>nil\<close>, hence the \<open>option\<close> in the field \<open>OnNewRecord\<close>.
\<close>

type_synonym 'w NewItemAction =
  "Item list \<Rightarrow> Item \<Rightarrow> 'w \<Rightarrow> error option \<times> (nat \<times> Item) list \<times> 'w"

record 'w Feed =
  URL :: string
  OnNewRecord :: "'w NewItemAction option"
  RefreshPeriod :: Duration

definition NewFeed :: "string \<Rightarrow> 'w NewItemAction option \<Rightarrow> 'w Feed" where
  "NewFeed url action =
     \<lparr>URL = url, OnNewRecord = action, RefreshPeriod = 1 * Minute\<rparr>"

record FeedHead =
  Title :: string
  Updated :: string
  Published :: string

subsection \<open>The key-value store\<close>

text \<open>
  Modelled from the spec: the interface \<^verbatim>\<open>gokv.Store\<close> belongs to a library outside
  the repository. The spec's store contract is
  \<^verbatim>\<open>get(key) -> (record, found, error)\<close>, \<^verbatim>\<open>set(key, record) -> error\<close>: a
  durable mapping from feed URL to the last-seen head record, whose writes are
  all-or-nothing. The model is a map \<open>kv\<close>; \<open>get_err\<close> and \<open>set_err\<close> say which calls
  fail, and \<open>oplog\<close> records every call made on the store, oldest first.
\<close>

datatype store_op = OpGet string | OpSet string FeedHead

fun op_key :: "store_op \<Rightarrow> string" where
  "op_key (OpGet k) = k"
| "op_key (OpSet k v) = k"

record KVStore =
  kv :: "string \<rightharpoonup> FeedHead"
  get_err :: "string \<Rightarrow> error option"
  set_err :: "string \<Rightarrow> FeedHead \<Rightarrow> error option"
  oplog :: "store_op list"

definition store_Get :: "KVStore \<Rightarrow> string \<Rightarrow> (error + FeedHead option) \<times> KVStore" where
  "store_Get s k =
     (case get_err s k of
        Some err \<Rightarrow> (Inl err, s\<lparr>oplog := oplog s @ [OpGet k]\<rparr>)
      | None \<Rightarrow> (Inr (kv s k), s\<lparr>oplog := oplog s @ [OpGet k]\<rparr>))"

definition store_Set :: "KVStore \<Rightarrow> string \<Rightarrow> FeedHead \<Rightarrow> error option \<times> KVStore" where
  "store_Set s k v =
     (case set_err s k v of
        Some err \<Rightarrow> (Some err, s\<lparr>oplog := oplog s @ [OpSet k v]\<rparr>)
      | None \<Rightarrow> (None, s\<lparr>kv := (kv s)(k \<mapsto> v), oplog := oplog s @ [OpSet k v]\<rparr>))"

subsection \<open>The application\<close>

text \<open>
  \<^verbatim>\<open>FeedAction\<close> embeds a \<^verbatim>\<open>sync.Mutex\<close>; \<open>locked\<close> is its state.
\<close>

record 'w FeedAction =
  Store :: KVStore
  Feeds :: "'w Feed list"
  locked :: bool

text \<open>
  \<^verbatim>\<open>New(s, ff...)\<close>. A \<^verbatim>\<open>nil\<close> store is \<open>None\<close>. The first argument is the result
  that \<^verbatim>\<open>bbolt.NewStore(bbolt.DefaultOptions)\<close> gives when it is called.
\<close>

definition New :: "error + KVStore \<Rightarrow> KVStore option \<Rightarrow> 'w Feed list \<Rightarrow> error + 'w FeedAction" where
  "New bbolt_NewStore s ff =
     (case s of
        None \<Rightarrow>
          (case bbolt_NewStore of
             Inl err \<Rightarrow> Inl (Wrap ''bbolt.NewStore'' err)
           | Inr store \<Rightarrow> Inr \<lparr>Store = store, Feeds = ff, locked = False\<rparr>)
      | Some store \<Rightarrow> Inr \<lparr>Store = store, Feeds = ff, locked = False\<rparr>)"

text \<open>
  \<^verbatim>\<open>Lock\<close> on a held mutex does not return (\<open>None\<close>): within one poll cycle nobody else
  releases it. \<^verbatim>\<open>Unlock\<close> of a mutex that is not held is a fatal error (\<open>None\<close>).
\<close>

definition Lock :: "'w FeedAction \<Rightarrow> 'w FeedAction option" where
  "Lock a = (if locked a then None else Some (a\<lparr>locked := True\<rparr>))"

definition Unlock :: "'w FeedAction \<Rightarrow> 'w FeedAction option" where
  "Unlock a = (if locked a then Some (a\<lparr>locked := False\<rparr>) else None)"

section \<open>One poll cycle\<close>

text \<open>
  What the callbacks act on: the user's state, and the trace of the callback invocations
  made so far (the item passed and the error returned), oldest first.
\<close>

record 'w World =
  user :: 'w
  invoked :: "(Item \<times> error option) list"

text \<open>
  How a call of \<^verbatim>\<open>run\<close> ends: it returns an error (or \<^verbatim>\<open>nil\<close>), it panics, or it blocks
  forever on the mutex.
\<close>

datatype exit = Return "error option" | Panic string | Blocked

text \<open>
  The items a callback holds pointers to, after its writes. A callback holds no pointer
  to an item it was never handed: a write to such an index does not happen.
\<close>

definition write_item :: "Item list \<Rightarrow> nat \<times> Item \<Rightarrow> Item list" where
  "write_item xs wr = (case wr of (k, v) \<Rightarrow> if k < length xs then xs[k := v] else xs)"

definition after_call :: "Item list \<Rightarrow> (nat \<times> Item) list \<Rightarrow> Item list" where
  "after_call xs writes = foldl write_item xs writes"

text \<open>
  The loop \<^verbatim>\<open>for i := 0; i < len(feed.Items); i++\<close> of \<^verbatim>\<open>run\<close> at index \<open>i\<close>: \<open>handed\<close>
  are the items below \<open>i\<close>, all handed to the callback, as they are now; the next
  argument are the items from \<open>i\<close> on, as fetched. \<open>Some x\<close> leaves \<^verbatim>\<open>run\<close> from inside the
  loop; \<open>None\<close> is the end of the loop (by \<^verbatim>\<open>break\<close> or by \<open>i\<close> reaching the length). The
  second component are the items of the feed as the loop leaves them.
\<close>

fun new_records :: "'w NewItemAction option \<Rightarrow> FeedHead \<Rightarrow> Item list \<Rightarrow> Item list \<Rightarrow> 'w World
    \<Rightarrow> exit option \<times> Item list \<times> 'w World" where
  "new_records act head handed [] w = (None, handed, w)"
| "new_records act head handed (it # its) w =
     (if Title head \<noteq> ItemTitle it then
        (case act of
           None \<Rightarrow>
             (Some (Panic ''invalid memory address or nil pointer dereference''),
              handed @ it # its, w)
         | Some fn \<Rightarrow>
             (case fn handed it (user w) of (res, writes, u) \<Rightarrow>
                (case res of
                   Some err \<Rightarrow>
                     (Some (Return (Some (Wrap ''trigger func'' err))),
                      after_call (handed @ [it]) writes @ its,
                      w\<lparr>user := u, invoked := invoked w @ [(it, res)]\<rparr>)
                 | None \<Rightarrow>
                     new_records act head (after_call (handed @ [it]) writes) its
                       (w\<lparr>user := u, invoked := invoked w @ [(it, res)]\<rparr>))))
      else (None, handed @ it # its, w))"

text \<open>The head record that \<^verbatim>\<open>run\<close> builds from \<^verbatim>\<open>zitem\<close>.\<close>

definition head_of :: "Item \<Rightarrow> FeedHead" where
  "head_of zitem =
     \<lparr>Title = ItemTitle zitem, Updated = ItemUpdated zitem, Published = ItemPublished zitem\<rparr>"

text \<open>
  \<^verbatim>\<open>zitem\<close> is the pointer \<^verbatim>\<open>feed.Items[0]\<close>, the one the callback receives for the
  first item. What \<^verbatim>\<open>run\<close> reads through it after the loop is the first of the items
  as the loop left them. (The loop keeps the number of items, see
  \<open>new_records_length\<close>, so the list is not empty there.)
\<close>

definition zitem_now :: "Item \<Rightarrow> Item list \<Rightarrow> Item" where
  "zitem_now zitem items = (case items of [] \<Rightarrow> zitem | z # rest \<Rightarrow> z)"

text \<open>
  The write phase, which \<^verbatim>\<open>run\<close> has twice (first run, and after the loop) with the
  context strings \<^verbatim>\<open>"storing"\<close> and \<^verbatim>\<open>"storing head"\<close>:
  \<^verbatim>\<open>a.Lock(); err := a.Store.Set(...); if err != nil { return ... }; a.Unlock(); return nil\<close>.
\<close>

definition write_head :: "string \<Rightarrow> 'w Feed \<Rightarrow> Item \<Rightarrow> 'w FeedAction \<Rightarrow> exit \<times> 'w FeedAction" where
  "write_head ctx f zitem a =
     (case Lock a of
        None \<Rightarrow> (Blocked, a)
      | Some a1 \<Rightarrow>
          (case store_Set (Store a1) (URL f) (head_of zitem) of (res, s) \<Rightarrow>
             (case res of
                Some err \<Rightarrow> (Return (Some (Wrap ctx err)), a1\<lparr>Store := s\<rparr>)
              | None \<Rightarrow>
                  (case Unlock (a1\<lparr>Store := s\<rparr>) of
                     None \<Rightarrow> (Panic ''sync: unlock of unlocked mutex'', a1\<lparr>Store := s\<rparr>)
                   | Some a2 \<Rightarrow> (Return None, a2)))))"

text \<open>
  \<^verbatim>\<open>func (a *FeedAction) run(ctx, f)\<close>. \<open>ParseURL\<close> is what
  \<^verbatim>\<open>gofeed.NewParser().ParseURLWithContext\<close> answers for a URL: an error, or the items
  of the feed. Indexing the empty slice with \<^verbatim>\<open>feed.Items[0]\<close> panics.
\<close>

definition run :: "(string \<Rightarrow> error + Item list) \<Rightarrow> 'w Feed \<Rightarrow> 'w FeedAction \<times> 'w World
    \<Rightarrow> exit \<times> 'w FeedAction \<times> 'w World" where
  "run ParseURL f aw =
     (case aw of (a, w) \<Rightarrow>
        (case ParseURL (URL f) of
           Inl err \<Rightarrow> (Return (Some (Wrap ''fetching feed'' err)), a, w)
         | Inr items \<Rightarrow>
             (case items of
                [] \<Rightarrow> (Panic ''index out of range [0] with length 0'', a, w)
              | zitem # rest \<Rightarrow>
                  (case store_Get (Store a) (URL f) of (got, s) \<Rightarrow>
                     (case got of
                        Inl err \<Rightarrow> (Return (Some (Wrap ''get from store'' err)), a\<lparr>Store := s\<rparr>, w)
                      | Inr None \<Rightarrow>
                          (case write_head ''storing'' f zitem (a\<lparr>Store := s\<rparr>) of
                             (x, a') \<Rightarrow> (x, a', w))
                      | Inr (Some head) \<Rightarrow>
                          (case new_records (OnNewRecord f) head [] items w of
                             (brk, items', w') \<Rightarrow>
                               (case brk of
                                  Some x \<Rightarrow> (x, a\<lparr>Store := s\<rparr>, w')
                                | None \<Rightarrow>
                                    (case write_head ''storing head'' f (zitem_now zitem items')
                                        (a\<lparr>Store := s\<rparr>) of
                                       (x, a') \<Rightarrow> (x, a', w')))))))))"

text \<open>The application once \<^verbatim>\<open>run\<close> has called \<^verbatim>\<open>a.Store.Get(k, &head)\<close>.\<close>

definition after_Get :: "'w FeedAction \<Rightarrow> string \<Rightarrow> 'w FeedAction" where
  "after_Get a k = a\<lparr>Store := (Store a)\<lparr>oplog := oplog (Store a) @ [OpGet k]\<rparr>\<rparr>"

section \<open>What the spec asks of the callbacks\<close>

text \<open>
  From the spec's words, to compare the loop with: ``invoke the callback for it, in fetch
  order''; ``any error from the callback aborts the cycle immediately''. \<open>invoke_each\<close>
  calls the callback once on each item of a list, in order, and stops after the first call
  that returns an error. It gives the calls made (the item passed and what the callback
  returned for it), the items after the calls, and the user's state after the calls.
\<close>

fun invoke_each :: "'w NewItemAction \<Rightarrow> Item list \<Rightarrow> Item list \<Rightarrow> 'w
    \<Rightarrow> (Item \<times> error option) list \<times> Item list \<times> 'w" where
  "invoke_each fn handed [] u = ([], handed, u)"
| "invoke_each fn handed (it # its) u =
     (case fn handed it u of (res, writes, u1) \<Rightarrow>
        (case res of
           Some err \<Rightarrow> ([(it, res)], after_call (handed @ [it]) writes @ its, u1)
         | None \<Rightarrow>
             (case invoke_each fn (after_call (handed @ [it]) writes) its u1 of
                (calls, items', u2) \<Rightarrow> ((it, res) # calls, items', u2))))"

text \<open>How the loop ends after these calls: with the error of the last call, if it has one.\<close>

definition loop_exit :: "(Item \<times> error option) list \<Rightarrow> exit option" where
  "loop_exit calls =
     (case calls of
        [] \<Rightarrow> None
      | c # cs \<Rightarrow>
          (case snd (last calls) of
             None \<Rightarrow> None
           | Some err \<Rightarrow> Some (Return (Some (Wrap ''trigger func'' err)))))"

section \<open>Example values\<close>

definition ex_item :: "string \<Rightarrow> string \<Rightarrow> Item" where
  "ex_item t u =
     \<lparr>ItemTitle = t, ItemUpdated = u, ItemPublished = u, ItemLink = ''commit/'' @ t,
      ItemAuthor = None\<rparr>"

definition ex_store :: "(string \<rightharpoonup> FeedHead) \<Rightarrow> KVStore" where
  "ex_store m = \<lparr>kv = m, get_err = (\<lambda>k. None), set_err = (\<lambda>k v. None), oplog = []\<rparr>"

text \<open>A store whose every \<^verbatim>\<open>Set\<close> fails.\<close>

definition ex_broken_store :: "(string \<rightharpoonup> FeedHead) \<Rightarrow> KVStore" where
  "ex_broken_store m =
     \<lparr>kv = m, get_err = (\<lambda>k. None), set_err = (\<lambda>k v. Some (Err ''disk full'')), oplog = []\<rparr>"

definition ex_app :: "KVStore \<Rightarrow> nat FeedAction" where
  "ex_app s = \<lparr>Store = s, Feeds = [], locked = False\<rparr>"

text \<open>
  Three callbacks on a counter: one never fails, one fails on a given title, one
  overwrites the title of the item it is handed.
\<close>

definition count_items :: "nat NewItemAction" where
  "count_items handed it n = (None, [], Suc n)"

definition fail_on :: "string \<Rightarrow> nat NewItemAction" where
  "fail_on t handed it n =
     (if ItemTitle it = t then Some (Err ''callback failed'') else None, [], Suc n)"

definition retitle :: "string \<Rightarrow> nat NewItemAction" where
  "retitle t handed it n = (None, [(length handed, it\<lparr>ItemTitle := t\<rparr>)], Suc n)"

definition ex_world :: "nat World" where
  "ex_world = \<lparr>user = 0, invoked = []\<rparr>"

definition ex_feed :: "nat NewItemAction \<Rightarrow> nat Feed" where
  "ex_feed act = NewFeed ''feed.atom'' (Some act)"

definition ex_fetch :: "Item list \<Rightarrow> string \<Rightarrow> error + Item list" where
  "ex_fetch items url = (if url = ''feed.atom'' then Inr items else Inl (Err ''not found''))"

lemmas ex_defs = ex_item_def ex_store_def ex_broken_store_def ex_app_def count_items_def
  fail_on_def retitle_def ex_world_def ex_feed_def ex_fetch_def NewFeed_def head_of_def

lemmas run_defs = run_def store_Get_def store_Set_def write_head_def Lock_def Unlock_def
  after_call_def write_item_def zitem_now_def

section \<open>The loop over the fetched items\<close>

lemma length_after_call [simp]: "length (after_call xs writes) = length xs"
  unfolding after_call_def
  by (induction writes arbitrary: xs) (auto simp: write_item_def)

lemma after_call_Nil [simp]: "after_call xs [] = xs"
  by (simp add: after_call_def)

lemma new_records_length:
  "new_records act head handed todo w = (brk, items', w') \<Longrightarrow>
   length items' = length handed + length todo"
proof (induction todo arbitrary: handed w)
  case Nil
  then show ?case by simp
next
  case (Cons it its)
  show ?case
  proof (cases "Title head \<noteq> ItemTitle it")
    case False
    with Cons.prems show ?thesis by auto
  next
    case diff: True
    show ?thesis
    proof (cases act)
      case None
      with diff Cons.prems show ?thesis by auto
    next
      case (Some fn)
      obtain res writes u where call: "fn handed it (user w) = (res, writes, u)"
        by (cases "fn handed it (user w)")
      show ?thesis
      proof (cases res)
        case failed: (Some err)
        with diff Some call Cons.prems show ?thesis by auto
      next
        case None
        with diff Some call Cons.prems
        have "new_records act head (after_call (handed @ [it]) writes) its
            (w\<lparr>user := u, invoked := invoked w @ [(it, None)]\<rparr>) = (brk, items', w')"
          by simp
        from Cons.IH [OF this] show ?thesis by simp
      qed
    qed
  qed
qed

lemma new_records_stop:
  "takeWhile (\<lambda>i. ItemTitle i \<noteq> Title head) todo = [] \<Longrightarrow>
   new_records act head handed todo w = (None, handed @ todo, w)"
  by (cases todo) (auto split: if_splits)

lemma new_records_nil_action:
  "takeWhile (\<lambda>i. ItemTitle i \<noteq> Title head) todo \<noteq> [] \<Longrightarrow>
   new_records None head handed todo w =
     (Some (Panic ''invalid memory address or nil pointer dereference''), handed @ todo, w)"
  by (cases todo) (auto split: if_splits)

lemma loop_exit_simps [simp]:
  "loop_exit [] = None"
  "loop_exit [(it, None)] = None"
  "loop_exit [(it, Some err)] = Some (Return (Some (Wrap ''trigger func'' err)))"
  "calls \<noteq> [] \<Longrightarrow> loop_exit (c # calls) = loop_exit calls"
  by (cases calls; simp add: loop_exit_def)+

text \<open>The loop makes the calls of \<open>invoke_each\<close> on the items before the first stored title.\<close>

lemma new_records_invoke_each:
  "invoke_each fn handed (takeWhile (\<lambda>i. ItemTitle i \<noteq> Title head) todo) (user w)
     = (calls, items1, u') \<Longrightarrow>
   new_records (Some fn) head handed todo w =
     (loop_exit calls,
      items1 @ dropWhile (\<lambda>i. ItemTitle i \<noteq> Title head) todo,
      w\<lparr>user := u', invoked := invoked w @ calls\<rparr>)"
proof (induction todo arbitrary: handed w calls items1 u')
  case Nil
  then show ?case by auto
next
  case (Cons it its)
  show ?case
  proof (cases "Title head \<noteq> ItemTitle it")
    case False
    with Cons.prems show ?thesis by auto
  next
    case diff: True
    obtain res writes u where call: "fn handed it (user w) = (res, writes, u)"
      by (cases "fn handed it (user w)")
    show ?thesis
    proof (cases res)
      case failed: (Some err)
      with diff call Cons.prems
      have "calls = [(it, Some err)]" "u' = u"
        "items1 = after_call (handed @ [it]) writes
            @ takeWhile (\<lambda>i. ItemTitle i \<noteq> Title head) its"
        by auto
      with diff call failed show ?thesis by simp
    next
      case None
      let ?handed = "after_call (handed @ [it]) writes"
      let ?w1 = "w\<lparr>user := u, invoked := invoked w @ [(it, None)]\<rparr>"
      obtain calls1 items2 u2 where
        rest: "invoke_each fn ?handed (takeWhile (\<lambda>i. ItemTitle i \<noteq> Title head) its) u
          = (calls1, items2, u2)"
        by (cases "invoke_each fn ?handed (takeWhile (\<lambda>i. ItemTitle i \<noteq> Title head) its) u")
      with None diff call Cons.prems
      have eqs: "calls = (it, None) # calls1" "items1 = items2" "u' = u2"
        by auto
      from rest have "invoke_each fn ?handed
          (takeWhile (\<lambda>i. ItemTitle i \<noteq> Title head) its) (user ?w1) = (calls1, items2, u2)"
        by simp
      from Cons.IH [OF this]
      have step: "new_records (Some fn) head ?handed its ?w1 =
          (loop_exit calls1, items2 @ dropWhile (\<lambda>i. ItemTitle i \<noteq> Title head) its,
           ?w1\<lparr>user := u2, invoked := invoked ?w1 @ calls1\<rparr>)" .
      have exit: "loop_exit ((it, None) # calls1) = loop_exit calls1"
        by (cases calls1) simp_all
      from None diff call step exit show ?thesis unfolding eqs by simp
    qed
  qed
qed

section \<open>Properties of \<open>invoke_each\<close>\<close>

lemma invoke_each_calls:
  "invoke_each fn handed xs u = (calls, items1, u') \<Longrightarrow>
   prefix (map fst calls) xs
   \<and> ((\<forall>c\<in>set calls. snd c = None) \<longrightarrow> map fst calls = xs \<and> loop_exit calls = None)
   \<and> (\<forall>it e. (it, Some e) \<in> set calls \<longrightarrow>
         loop_exit calls = Some (Return (Some (Wrap ''trigger func'' e))))
   \<and> length items1 = length handed + length xs"
proof (induction xs arbitrary: handed u calls items1 u')
  case Nil
  then show ?case by auto
next
  case (Cons it its)
  obtain res writes u1 where call: "fn handed it u = (res, writes, u1)"
    by (cases "fn handed it u")
  show ?case
  proof (cases res)
    case (Some err)
    with call Cons.prems have "calls = [(it, Some err)]"
      "items1 = after_call (handed @ [it]) writes @ its" by auto
    then show ?thesis by simp
  next
    case None
    let ?handed = "after_call (handed @ [it]) writes"
    obtain calls1 items2 u2 where rest: "invoke_each fn ?handed its u1 = (calls1, items2, u2)"
      by (cases "invoke_each fn ?handed its u1")
    with None call Cons.prems have eqs: "calls = (it, None) # calls1" "items1 = items2"
      by auto
    have exit: "loop_exit ((it, None) # calls1) = loop_exit calls1"
      by (cases calls1) simp_all
    from Cons.IH [OF rest] show ?thesis unfolding eqs exit by auto
  qed
qed

lemma invoke_each_quiet:
  assumes quiet: "\<forall>h i v. fst (snd (fn h i v)) = []"
  shows "invoke_each fn handed xs u = (calls, items1, u') \<Longrightarrow> items1 = handed @ xs"
proof (induction xs arbitrary: handed u calls items1 u')
  case Nil
  then show ?case by simp
next
  case (Cons it its)
  obtain res writes u1 where call: "fn handed it u = (res, writes, u1)"
    by (cases "fn handed it u")
  with quiet have writes: "writes = []" by (metis fst_conv snd_conv)
  show ?case
  proof (cases res)
    case (Some err)
    with call writes Cons.prems show ?thesis by auto
  next
    case None
    obtain calls1 items2 u2 where
      rest: "invoke_each fn (handed @ [it]) its u1 = (calls1, items2, u2)"
      by (cases "invoke_each fn (handed @ [it]) its u1")
    with None call writes Cons.prems have "items1 = items2" by auto
    with Cons.IH [OF rest] show ?thesis by simp
  qed
qed

section \<open>The branches of a poll cycle\<close>

lemma after_Get_simps [simp]:
  "kv (Store (after_Get a k)) = kv (Store a)"
  "oplog (Store (after_Get a k)) = oplog (Store a) @ [OpGet k]"
  "set_err (Store (after_Get a k)) = set_err (Store a)"
  "get_err (Store (after_Get a k)) = get_err (Store a)"
  "locked (after_Get a k) = locked a"
  "Feeds (after_Get a k) = Feeds a"
  by (simp_all add: after_Get_def)

lemma write_head_cases:
  assumes "write_head ctx f z a = (x, a')"
  shows "(locked a \<and> x = Blocked \<and> a' = a)
    \<or> (\<not> locked a \<and> locked a'
        \<and> (\<exists>e. set_err (Store a) (URL f) (head_of z) = Some e \<and> x = Return (Some (Wrap ctx e)))
        \<and> kv (Store a') = kv (Store a)
        \<and> oplog (Store a') = oplog (Store a) @ [OpSet (URL f) (head_of z)])
    \<or> (\<not> locked a \<and> \<not> locked a'
        \<and> set_err (Store a) (URL f) (head_of z) = None \<and> x = Return None
        \<and> kv (Store a') = (kv (Store a))(URL f \<mapsto> head_of z)
        \<and> oplog (Store a') = oplog (Store a) @ [OpSet (URL f) (head_of z)])"
  using assms
  by (auto simp: write_head_def Lock_def Unlock_def store_Set_def
      split: if_splits option.splits)

lemma write_head_frame:
  assumes "write_head ctx f z a = (x, a')"
  shows "(\<exists>ops. oplog (Store a') = oplog (Store a) @ ops \<and> (\<forall>op\<in>set ops. op_key op = URL f))
    \<and> (\<forall>k. k \<noteq> URL f \<longrightarrow> kv (Store a') k = kv (Store a) k)"
  using write_head_cases [OF assms] by auto

lemma run_fetch_failed:
  "ParseURL (URL f) = Inl err \<Longrightarrow>
   run ParseURL f (a, w) = (Return (Some (Wrap ''fetching feed'' err)), a, w)"
  by (simp add: run_def)

lemma run_no_items:
  "ParseURL (URL f) = Inr [] \<Longrightarrow>
   run ParseURL f (a, w) = (Panic ''index out of range [0] with length 0'', a, w)"
  by (simp add: run_def)

lemma run_get_failed:
  "ParseURL (URL f) = Inr (z # rest) \<Longrightarrow> get_err (Store a) (URL f) = Some err \<Longrightarrow>
   run ParseURL f (a, w) = (Return (Some (Wrap ''get from store'' err)), after_Get a (URL f), w)"
  unfolding run_def store_Get_def after_Get_def by (simp del: new_records.simps)

lemma run_first:
  "ParseURL (URL f) = Inr (z # rest) \<Longrightarrow> get_err (Store a) (URL f) = None \<Longrightarrow>
   kv (Store a) (URL f) = None \<Longrightarrow>
   run ParseURL f (a, w) =
     (case write_head ''storing'' f z (after_Get a (URL f)) of (x, a') \<Rightarrow> (x, a', w))"
  unfolding run_def store_Get_def after_Get_def by (simp del: new_records.simps)

lemma run_found:
  "ParseURL (URL f) = Inr (z # rest) \<Longrightarrow> get_err (Store a) (URL f) = None \<Longrightarrow>
   kv (Store a) (URL f) = Some head \<Longrightarrow>
   run ParseURL f (a, w) =
     (case new_records (OnNewRecord f) head [] (z # rest) w of (brk, items', w') \<Rightarrow>
        (case brk of
           Some x \<Rightarrow> (x, after_Get a (URL f), w')
         | None \<Rightarrow>
             (case write_head ''storing head'' f (zitem_now z items') (after_Get a (URL f)) of
                (x, a') \<Rightarrow> (x, a', w'))))"
  unfolding run_def store_Get_def after_Get_def by (simp del: new_records.simps)

text \<open>A cycle that finds a head record whose title the first item has: no callback.\<close>

lemma run_found_stop:
  assumes "ParseURL (URL f) = Inr (z # rest)"
    and "get_err (Store a) (URL f) = None"
    and "kv (Store a) (URL f) = Some head"
    and "takeWhile (\<lambda>i. ItemTitle i \<noteq> Title head) (z # rest) = []"
  shows "run ParseURL f (a, w) =
     (case write_head ''storing head'' f z (after_Get a (URL f)) of (x, a') \<Rightarrow> (x, a', w))"
  by (simp only: run_found [where ParseURL = ParseURL and f = f, OF assms(1-3)] new_records_stop [OF assms(4)] prod.case
      option.case append_Nil zitem_now_def list.case)

text \<open>A cycle that finds a head record, has a new item and a \<^verbatim>\<open>nil\<close> callback.\<close>

lemma run_found_nil_action:
  assumes "ParseURL (URL f) = Inr (z # rest)"
    and "get_err (Store a) (URL f) = None"
    and "kv (Store a) (URL f) = Some head"
    and "takeWhile (\<lambda>i. ItemTitle i \<noteq> Title head) (z # rest) \<noteq> []"
    and "OnNewRecord f = None"
  shows "run ParseURL f (a, w) =
     (Panic ''invalid memory address or nil pointer dereference'', after_Get a (URL f), w)"
  by (simp only: run_found [where ParseURL = ParseURL and f = f, OF assms(1-3)] assms(5) new_records_nil_action [OF assms(4)]
      prod.case option.case)

text \<open>A cycle that finds a head record and has a callback.\<close>

lemma run_found_calls:
  assumes "ParseURL (URL f) = Inr (z # rest)"
    and "get_err (Store a) (URL f) = None"
    and "kv (Store a) (URL f) = Some head"
    and "OnNewRecord f = Some fn"
    and "invoke_each fn [] (takeWhile (\<lambda>i. ItemTitle i \<noteq> Title head) (z # rest)) (user w)
      = (calls, items1, u')"
  shows "run ParseURL f (a, w) =
     (case loop_exit calls of
        Some x \<Rightarrow> (x, after_Get a (URL f), w\<lparr>user := u', invoked := invoked w @ calls\<rparr>)
      | None \<Rightarrow>
          (case write_head ''storing head'' f
              (zitem_now z (items1 @ dropWhile (\<lambda>i. ItemTitle i \<noteq> Title head) (z # rest)))
              (after_Get a (URL f)) of
             (x, a') \<Rightarrow> (x, a', w\<lparr>user := u', invoked := invoked w @ calls\<rparr>)))"
  by (simp only: run_found [where ParseURL = ParseURL and f = f, OF assms(1-3)] assms(4) new_records_invoke_each [OF assms(5)]
      prod.case)

lemma run_found_calls_world:
  assumes "ParseURL (URL f) = Inr items"
    and "get_err (Store a) (URL f) = None"
    and "kv (Store a) (URL f) = Some head"
    and "OnNewRecord f = Some fn"
    and "invoke_each fn [] (takeWhile (\<lambda>i. ItemTitle i \<noteq> Title head) items) (user w)
      = (calls, items1, u')"
    and "run ParseURL f (a, w) = (x, a', w')"
  shows "w' = w\<lparr>user := u', invoked := invoked w @ calls\<rparr>"
proof (cases items)
  case Nil
  with assms(1,5,6) show ?thesis by (simp add: run_no_items)
next
  case (Cons z rest)
  from run_found_calls [where ParseURL = ParseURL and f = f, OF assms(1-5) [unfolded Cons]] assms(6)
  show ?thesis by (auto split: option.splits prod.splits)
qed

lemma run_found_calls_failed:
  assumes "ParseURL (URL f) = Inr items"
    and "get_err (Store a) (URL f) = None"
    and "kv (Store a) (URL f) = Some head"
    and "OnNewRecord f = Some fn"
    and "invoke_each fn [] (takeWhile (\<lambda>i. ItemTitle i \<noteq> Title head) items) (user w)
      = (calls, items1, u')"
    and "run ParseURL f (a, w) = (x, a', w')"
    and "(it, Some e) \<in> set calls"
  shows "x = Return (Some (Wrap ''trigger func'' e)) \<and> a' = after_Get a (URL f)"
proof (cases items)
  case Nil
  with assms(5,7) show ?thesis by simp
next
  case (Cons z rest)
  from invoke_each_calls [OF assms(5)] assms(7)
  have "loop_exit calls = Some (Return (Some (Wrap ''trigger func'' e)))" by blast
  with run_found_calls [where ParseURL = ParseURL and f = f, OF assms(1-5) [unfolded Cons]] assms(6)
  show ?thesis by simp
qed

lemma loop_exit_not_nil: "loop_exit calls \<noteq> Some (Return None)"
  by (cases calls) (auto simp: loop_exit_def split: option.splits)

section \<open>Construction\<close>

text \<open>
  C10. \<^verbatim>\<open>NewFeed(url, action)\<close> returns a feed with the given URL and action and a refresh
  period of exactly one minute, that is 60000000000 nanoseconds.
\<close>

theorem NewFeed_fields:
  "URL (NewFeed url action) = url
   \<and> OnNewRecord (NewFeed url action) = action
   \<and> RefreshPeriod (NewFeed url action) = Minute
   \<and> sint (RefreshPeriod (NewFeed url action)) = 60000000000"
  by (simp add: NewFeed_def Minute_def Second_def Millisecond_def Microsecond_def
      Nanosecond_def)

text \<open>
  C8. \<^verbatim>\<open>New\<close> fails if and only if no store is supplied and the default store cannot be
  opened, and then returns that error (wrapped); with a store supplied it succeeds, and
  the application holds exactly the supplied store and feed list.
\<close>

theorem New_result:
  "((\<exists>err. New bbolt_NewStore s ff = Inl err) \<longleftrightarrow> (s = None \<and> (\<exists>e. bbolt_NewStore = Inl e)))
   \<and> (\<forall>e. s = None \<and> bbolt_NewStore = Inl e \<longrightarrow>
          New bbolt_NewStore s ff = Inl (Wrap ''bbolt.NewStore'' e))
   \<and> (\<forall>store. s = Some store \<longrightarrow>
          (\<exists>app. New bbolt_NewStore s ff = Inr app \<and> Store app = store \<and> Feeds app = ff))"
  by (cases s; cases bbolt_NewStore) (simp_all add: New_def)

theorem New_result_witness:
  "New (Inl (Err ''timeout'')) None [ex_feed count_items]
     = Inl (Wrap ''bbolt.NewStore'' (Err ''timeout''))
   \<and> (\<exists>app. New (Inl (Err ''timeout'')) (Some (ex_store Map.empty)) [ex_feed count_items]
          = Inr app
        \<and> Store app = ex_store Map.empty \<and> Feeds app = [ex_feed count_items])"
  using New_result [of "Inl (Err ''timeout'')" None "[ex_feed count_items]"]
    New_result [of "Inl (Err ''timeout'')" "Some (ex_store Map.empty)" "[ex_feed count_items]"]
  by simp

section \<open>Poll cycles\<close>

text \<open>
  C1. In a cycle that finds a head record for the feed's URL, the callback invocations
  are those of \<open>invoke_each\<close> on the longest prefix of the fetched items whose titles
  differ from the stored title: the cycle's trace and the user's state are what calling
  \<^verbatim>\<open>f.OnNewRecord\<close> on these items, in fetch order, gives. When every one of these
  calls returns \<^verbatim>\<open>nil\<close>, each item of the prefix is passed exactly once, in order; the
  first item with the stored title and all items after it are passed to no callback; and
  when no fetched item has the stored title, all fetched items are passed. When the prefix
  is empty nothing is invoked, whatever the callback (also a \<^verbatim>\<open>nil\<close> one).
\<close>

theorem run_found_callbacks:
  assumes fetch: "ParseURL (URL f) = Inr items"
    and get_ok: "get_err (Store a) (URL f) = None"
    and found: "kv (Store a) (URL f) = Some head"
    and cycle: "run ParseURL f (a, w) = (x, a', w')"
  shows "(takeWhile (\<lambda>i. ItemTitle i \<noteq> Title head) items = [] \<longrightarrow> w' = w)
    \<and> (\<forall>fn calls items1 u'.
          OnNewRecord f = Some fn
          \<and> invoke_each fn [] (takeWhile (\<lambda>i. ItemTitle i \<noteq> Title head) items) (user w)
              = (calls, items1, u') \<longrightarrow>
            invoked w' = invoked w @ calls \<and> user w' = u'
            \<and> (\<forall>c\<in>set calls. ItemTitle (fst c) \<noteq> Title head)
            \<and> ((\<forall>c\<in>set calls. snd c = None) \<longrightarrow>
                  map fst calls = takeWhile (\<lambda>i. ItemTitle i \<noteq> Title head) items
                  \<and> map fst calls @ dropWhile (\<lambda>i. ItemTitle i \<noteq> Title head) items = items
                  \<and> ((\<forall>i\<in>set items. ItemTitle i \<noteq> Title head) \<longrightarrow> map fst calls = items)))"
proof -
  let ?P = "\<lambda>i. ItemTitle i \<noteq> Title head"
  have none: "w' = w" if stop: "takeWhile ?P items = []"
  proof (cases items)
    case Nil
    with fetch cycle show ?thesis by (simp add: run_no_items)
  next
    case (Cons z rest)
    from run_found_stop [where ParseURL = ParseURL and f = f,
        OF fetch [unfolded Cons] get_ok found stop [unfolded Cons]] cycle
    show ?thesis by (auto split: prod.splits)
  qed
  have some: "invoked w' = invoked w @ calls \<and> user w' = u'
      \<and> (\<forall>c\<in>set calls. ItemTitle (fst c) \<noteq> Title head)
      \<and> ((\<forall>c\<in>set calls. snd c = None) \<longrightarrow>
            map fst calls = takeWhile ?P items
            \<and> map fst calls @ dropWhile ?P items = items
            \<and> ((\<forall>i\<in>set items. ?P i) \<longrightarrow> map fst calls = items))"
    if action: "OnNewRecord f = Some fn"
      and calls: "invoke_each fn [] (takeWhile ?P items) (user w) = (calls, items1, u')"
    for fn calls items1 u'
  proof -
    from run_found_calls_world [OF fetch get_ok found action calls cycle]
    have world: "invoked w' = invoked w @ calls \<and> user w' = u'" by simp
    from invoke_each_calls [OF calls]
    have pre: "prefix (map fst calls) (takeWhile ?P items)"
      and all: "(\<forall>c\<in>set calls. snd c = None) \<longrightarrow> map fst calls = takeWhile ?P items"
      by simp_all
    have no_match: "\<forall>c\<in>set calls. ItemTitle (fst c) \<noteq> Title head"
    proof
      fix c
      assume "c \<in> set calls"
      then have "fst c \<in> set (map fst calls)" by (simp add: image_iff) blast
      with pre have "fst c \<in> set (takeWhile ?P items)"
        using set_mono_prefix by blast
      then show "ItemTitle (fst c) \<noteq> Title head" by (rule set_takeWhileD [THEN conjunct2])
    qed
    have full: "map fst calls = takeWhile ?P items
        \<and> map fst calls @ dropWhile ?P items = items
        \<and> ((\<forall>i\<in>set items. ?P i) \<longrightarrow> map fst calls = items)"
      if "\<forall>c\<in>set calls. snd c = None"
    proof -
      from that all have eq: "map fst calls = takeWhile ?P items" by simp
      show ?thesis unfolding eq by simp
    qed
    from world no_match full show ?thesis by blast
  qed
  from none some show ?thesis by blast
qed

theorem run_found_callbacks_witness:
  "invoked (snd (snd (run
      (ex_fetch [ex_item ''C'' ''3'', ex_item ''B'' ''2'', ex_item ''A'' ''1'', ex_item ''X'' ''0''])
      (ex_feed count_items)
      (ex_app (ex_store [''feed.atom'' \<mapsto> head_of (ex_item ''A'' ''1'')]), ex_world))))
     = [(ex_item ''C'' ''3'', None), (ex_item ''B'' ''2'', None)]
   \<and> user (snd (snd (run
      (ex_fetch [ex_item ''C'' ''3'', ex_item ''B'' ''2'', ex_item ''A'' ''1'', ex_item ''X'' ''0''])
      (ex_feed count_items)
      (ex_app (ex_store [''feed.atom'' \<mapsto> head_of (ex_item ''A'' ''1'')]), ex_world))))
     = 2"
proof -
  let ?items = "[ex_item ''C'' ''3'', ex_item ''B'' ''2'', ex_item ''A'' ''1'', ex_item ''X'' ''0'']"
  let ?head = "head_of (ex_item ''A'' ''1'')"
  let ?a = "ex_app (ex_store [''feed.atom'' \<mapsto> ?head])"
  let ?f = "ex_feed count_items"
  let ?r = "run (ex_fetch ?items) ?f (?a, ex_world)"
  let ?calls = "[(ex_item ''C'' ''3'', None :: error option), (ex_item ''B'' ''2'', None)]"
  have fetch: "ex_fetch ?items (URL ?f) = Inr ?items" by (simp add: ex_defs)
  have get_ok: "get_err (Store ?a) (URL ?f) = None" by (simp add: ex_defs)
  have found: "kv (Store ?a) (URL ?f) = Some ?head" by (simp add: ex_defs)
  have cycle: "?r = (fst ?r, fst (snd ?r), snd (snd ?r))" by simp
  have action: "OnNewRecord ?f = Some count_items" by (simp add: ex_feed_def NewFeed_def)
  have calls: "invoke_each count_items [] (takeWhile (\<lambda>i. ItemTitle i \<noteq> Title ?head) ?items)
      (user ex_world) = (?calls, [ex_item ''C'' ''3'', ex_item ''B'' ''2''], 2)"
    by (simp add: ex_defs)
  from run_found_callbacks [where ParseURL = "ex_fetch ?items" and f = ?f,
      OF fetch get_ok found cycle] action calls
  have "invoked (snd (snd ?r)) = invoked ex_world @ ?calls \<and> user (snd (snd ?r)) = 2"
    by blast
  then show ?thesis by (simp add: ex_world_def)
qed

text \<open>
  C2. A cycle that starts with no head record stored for the feed's URL invokes no callback
  (the callbacks' world is unchanged), and when it returns \<^verbatim>\<open>nil\<close> the store holds, under
  the feed's URL, the head record whose three fields are those of the fetched item at
  index 0. The cycle does return \<^verbatim>\<open>nil\<close> when the feed has an item, the store calls do not
  fail and the mutex is free.
\<close>

theorem run_first_run:
  assumes first: "kv (Store a) (URL f) = None"
    and cycle: "run ParseURL f (a, w) = (x, a', w')"
  shows "w' = w
    \<and> (x = Return None \<longrightarrow>
         (\<exists>zitem rest. ParseURL (URL f) = Inr (zitem # rest)
            \<and> kv (Store a') (URL f) =
                Some \<lparr>Title = ItemTitle zitem, Updated = ItemUpdated zitem,
                      Published = ItemPublished zitem\<rparr>))
    \<and> (\<forall>zitem rest. ParseURL (URL f) = Inr (zitem # rest)
          \<and> get_err (Store a) (URL f) = None
          \<and> set_err (Store a) (URL f) (head_of zitem) = None \<and> \<not> locked a
          \<longrightarrow> x = Return None)"
proof (cases "ParseURL (URL f)")
  case (Inl err)
  with cycle show ?thesis by (auto simp: run_fetch_failed)
next
  case (Inr items)
  show ?thesis
  proof (cases items)
    case Nil
    with Inr cycle show ?thesis by (auto simp: run_no_items)
  next
    case (Cons z rest)
    show ?thesis
    proof (cases "get_err (Store a) (URL f)")
      case (Some err)
      with Inr Cons cycle show ?thesis by (auto simp: run_get_failed)
    next
      case None
      obtain y a1 where wr: "write_head ''storing'' f z (after_Get a (URL f)) = (y, a1)"
        by (cases "write_head ''storing'' f z (after_Get a (URL f))")
      with Inr Cons None first cycle have res: "x = y" "a' = a1" "w' = w"
        by (simp_all add: run_first)
      from write_head_cases [OF wr] res Inr Cons None show ?thesis
        by (auto simp: head_of_def)
    qed
  qed
qed

theorem run_first_run_witness:
  "run (ex_fetch [ex_item ''C'' ''3'', ex_item ''B'' ''2'', ex_item ''A'' ''1''])
      (ex_feed count_items) (ex_app (ex_store Map.empty), ex_world)
   = (Return None,
      ex_app \<lparr>kv = [''feed.atom'' \<mapsto> \<lparr>Title = ''C'', Updated = ''3'', Published = ''3''\<rparr>],
        get_err = (\<lambda>k. None), set_err = (\<lambda>k v. None),
        oplog = [OpGet ''feed.atom'',
          OpSet ''feed.atom'' \<lparr>Title = ''C'', Updated = ''3'', Published = ''3''\<rparr>]\<rparr>,
      ex_world)"
proof -
  let ?items = "[ex_item ''C'' ''3'', ex_item ''B'' ''2'', ex_item ''A'' ''1'']"
  let ?a = "ex_app (ex_store Map.empty)"
  let ?f = "ex_feed count_items"
  let ?r = "run (ex_fetch ?items) ?f (?a, ex_world)"
  have first: "kv (Store ?a) (URL ?f) = None" by (simp add: ex_defs)
  have cycle: "?r = (fst ?r, fst (snd ?r), snd (snd ?r))" by simp
  have world: "snd (snd ?r) = ex_world"
    using run_first_run [OF first cycle] by simp
  have "fst ?r = Return None" and "fst (snd ?r) =
      ex_app \<lparr>kv = [''feed.atom'' \<mapsto> \<lparr>Title = ''C'', Updated = ''3'', Published = ''3''\<rparr>],
        get_err = (\<lambda>k. None), set_err = (\<lambda>k v. None),
        oplog = [OpGet ''feed.atom'',
          OpSet ''feed.atom'' \<lparr>Title = ''C'', Updated = ''3'', Published = ''3''\<rparr>]\<rparr>"
    by (simp_all add: run_defs ex_defs)
  with world show ?thesis by (simp add: prod_eq_iff)
qed

text \<open>
  C3. In a cycle that finds a head record, when a call of the callback on one of the new
  items returns an error, the cycle returns that error (wrapped by
  \<^verbatim>\<open>"trigger func: %w"\<close>) and writes nothing: the store's contents are unchanged, its only
  call was the \<^verbatim>\<open>Get\<close>, and the mutex is as before. The calls made are those of
  \<open>invoke_each\<close>, up to the failing one. The failing item is among the items classified
  new, and a subsequent cycle over the same fetched items calls the callback on the same
  items again: its calls are those of \<open>invoke_each\<close> on the same prefix, all of it when they
  all succeed.
\<close>

theorem run_callback_error_keeps_head:
  assumes fetch: "ParseURL (URL f) = Inr items"
    and get_ok: "get_err (Store a) (URL f) = None"
    and found: "kv (Store a) (URL f) = Some head"
    and action: "OnNewRecord f = Some fn"
    and calls: "invoke_each fn [] (takeWhile (\<lambda>i. ItemTitle i \<noteq> Title head) items) (user w)
      = (calls, items1, u')"
    and failed: "(it, Some e) \<in> set calls"
    and cycle: "run ParseURL f (a, w) = (x, a', w')"
  shows "x = Return (Some (Wrap ''trigger func'' e))
    \<and> kv (Store a') = kv (Store a)
    \<and> oplog (Store a') = oplog (Store a) @ [OpGet (URL f)]
    \<and> locked a' = locked a
    \<and> invoked w' = invoked w @ calls \<and> user w' = u'
    \<and> it \<in> set (takeWhile (\<lambda>i. ItemTitle i \<noteq> Title head) items)
    \<and> (\<forall>w2 x2 a2 w2' calls2 items2 u2.
          run ParseURL f (a', w2) = (x2, a2, w2')
          \<and> invoke_each fn [] (takeWhile (\<lambda>i. ItemTitle i \<noteq> Title head) items) (user w2)
              = (calls2, items2, u2) \<longrightarrow>
            invoked w2' = invoked w2 @ calls2 \<and> user w2' = u2
            \<and> prefix (map fst calls2) (takeWhile (\<lambda>i. ItemTitle i \<noteq> Title head) items)
            \<and> ((\<forall>c\<in>set calls2. snd c = None) \<longrightarrow>
                  map fst calls2 = takeWhile (\<lambda>i. ItemTitle i \<noteq> Title head) items))"
proof -
  let ?new_items = "takeWhile (\<lambda>i. ItemTitle i \<noteq> Title head) items"
  from run_found_calls_failed [OF fetch get_ok found action calls cycle failed]
  have x: "x = Return (Some (Wrap ''trigger func'' e))" and a': "a' = after_Get a (URL f)"
    by simp_all
  from run_found_calls_world [OF fetch get_ok found action calls cycle]
  have world: "invoked w' = invoked w @ calls \<and> user w' = u'" by simp
  from invoke_each_calls [OF calls] have pre: "prefix (map fst calls) ?new_items" by simp
  from failed have "it \<in> set (map fst calls)" by force
  with pre have it_new: "it \<in> set ?new_items"
    using set_mono_prefix by blast
  have get_ok': "get_err (Store a') (URL f) = None"
    and found': "kv (Store a') (URL f) = Some head"
    using get_ok found a' by simp_all
  have again: "invoked w2' = invoked w2 @ calls2 \<and> user w2' = u2
      \<and> prefix (map fst calls2) ?new_items
      \<and> ((\<forall>c\<in>set calls2. snd c = None) \<longrightarrow> map fst calls2 = ?new_items)"
    if second: "run ParseURL f (a', w2) = (x2, a2, w2')
      \<and> invoke_each fn [] ?new_items (user w2) = (calls2, items2, u2)"
    for w2 x2 a2 w2' calls2 items2 u2
  proof -
    from second have cycle2: "run ParseURL f (a', w2) = (x2, a2, w2')"
      and calls2: "invoke_each fn [] ?new_items (user w2) = (calls2, items2, u2)"
      by simp_all
    from run_found_calls_world [OF fetch get_ok' found' action calls2 cycle2]
    have "invoked w2' = invoked w2 @ calls2 \<and> user w2' = u2" by simp
    with invoke_each_calls [OF calls2] show ?thesis by simp
  qed
  from x a' have "x = Return (Some (Wrap ''trigger func'' e))
    \<and> kv (Store a') = kv (Store a)
    \<and> oplog (Store a') = oplog (Store a) @ [OpGet (URL f)]
    \<and> locked a' = locked a" by simp
  with world it_new again show ?thesis by blast
qed

theorem run_callback_error_keeps_head_witness:
  "run (ex_fetch [ex_item ''C'' ''3'', ex_item ''B'' ''2'', ex_item ''A'' ''1''])
      (ex_feed (fail_on ''B''))
      (ex_app (ex_store [''feed.atom'' \<mapsto> head_of (ex_item ''Z'' ''0'')]), ex_world)
   = (Return (Some (Wrap ''trigger func'' (Err ''callback failed''))),
      ex_app \<lparr>kv = [''feed.atom'' \<mapsto> head_of (ex_item ''Z'' ''0'')],
        get_err = (\<lambda>k. None), set_err = (\<lambda>k v. None), oplog = [OpGet ''feed.atom'']\<rparr>,
      \<lparr>user = 2, invoked = [(ex_item ''C'' ''3'', None),
         (ex_item ''B'' ''2'', Some (Err ''callback failed''))]\<rparr>)"
proof -
  let ?items = "[ex_item ''C'' ''3'', ex_item ''B'' ''2'', ex_item ''A'' ''1'']"
  let ?head = "head_of (ex_item ''Z'' ''0'')"
  let ?a = "ex_app (ex_store [''feed.atom'' \<mapsto> ?head])"
  let ?f = "ex_feed (fail_on ''B'')"
  let ?r = "run (ex_fetch ?items) ?f (?a, ex_world)"
  let ?calls = "[(ex_item ''C'' ''3'', None), (ex_item ''B'' ''2'', Some (Err ''callback failed''))]"
  have fetch: "ex_fetch ?items (URL ?f) = Inr ?items" by (simp add: ex_defs)
  have get_ok: "get_err (Store ?a) (URL ?f) = None" by (simp add: ex_defs)
  have found: "kv (Store ?a) (URL ?f) = Some ?head" by (simp add: ex_defs)
  have action: "OnNewRecord ?f = Some (fail_on ''B'')" by (simp add: ex_feed_def NewFeed_def)
  have calls: "invoke_each (fail_on ''B'') [] (takeWhile (\<lambda>i. ItemTitle i \<noteq> Title ?head) ?items)
      (user ex_world) = (?calls, ?items, 2)"
    by (simp add: ex_defs)
  have failed: "(ex_item ''B'' ''2'', Some (Err ''callback failed'')) \<in> set ?calls" by simp
  have cycle: "?r = (fst ?r, fst (snd ?r), snd (snd ?r))" by simp
  from run_callback_error_keeps_head [where ParseURL = "ex_fetch ?items" and f = ?f,
      OF fetch get_ok found action calls failed cycle]
  have x: "fst ?r = Return (Some (Wrap ''trigger func'' (Err ''callback failed'')))"
    by (rule conjunct1)
  have rest: "snd ?r =
     (ex_app \<lparr>kv = [''feed.atom'' \<mapsto> head_of (ex_item ''Z'' ''0'')],
        get_err = (\<lambda>k. None), set_err = (\<lambda>k v. None), oplog = [OpGet ''feed.atom'']\<rparr>,
      \<lparr>user = 2, invoked = ?calls\<rparr>)"
    by (simp add: run_defs ex_defs)
  from x rest show ?thesis by (simp add: prod_eq_iff)
qed

text \<open>
  C4, as amended. A cycle that finds a head record and returns \<^verbatim>\<open>nil\<close> ends by writing,
  under the feed's URL, the head record built from the item at index 0: the \<^verbatim>\<open>Set\<close> is
  the store's last call and follows the \<^verbatim>\<open>Get\<close>. The three fields are read after the loop
  through the pointer \<^verbatim>\<open>zitem\<close>, so they are those of the item at index 0 as the callbacks
  of the cycle left it: the item as fetched when the callback is \<^verbatim>\<open>nil\<close> or writes to no
  item, and in the zero-new case. When the stored title equals the title of the item at
  index 0 no callback is invoked and the written record has the stored title; its other
  two fields are those of the item at index 0.
\<close>

theorem run_found_overwrites_head:
  assumes get_ok: "get_err (Store a) (URL f) = None"
    and found: "kv (Store a) (URL f) = Some head"
    and cycle: "run ParseURL f (a, w) = (Return None, a', w')"
  shows "\<exists>zitem rest znow. ParseURL (URL f) = Inr (zitem # rest)
    \<and> kv (Store a') = (kv (Store a))(URL f \<mapsto> head_of znow)
    \<and> oplog (Store a') = oplog (Store a) @ [OpGet (URL f), OpSet (URL f) (head_of znow)]
    \<and> Title (head_of znow) = ItemTitle znow
    \<and> Updated (head_of znow) = ItemUpdated znow
    \<and> Published (head_of znow) = ItemPublished znow
    \<and> (Title head = ItemTitle zitem \<longrightarrow>
          w' = w \<and> znow = zitem \<and> Title (head_of znow) = Title head)
    \<and> (OnNewRecord f = None \<longrightarrow> znow = zitem)
    \<and> (\<forall>fn calls items1 u'.
          OnNewRecord f = Some fn
          \<and> invoke_each fn [] (takeWhile (\<lambda>i. ItemTitle i \<noteq> Title head) (zitem # rest)) (user w)
              = (calls, items1, u') \<longrightarrow>
            znow = zitem_now zitem
              (items1 @ dropWhile (\<lambda>i. ItemTitle i \<noteq> Title head) (zitem # rest))
            \<and> invoked w' = invoked w @ calls \<and> user w' = u')
    \<and> (\<forall>fn. OnNewRecord f = Some fn \<and> (\<forall>h i v. fst (snd (fn h i v)) = []) \<longrightarrow>
          znow = zitem)"
proof (cases "ParseURL (URL f)")
  case (Inl err)
  with cycle show ?thesis by (simp add: run_fetch_failed)
next
  case (Inr items)
  show ?thesis
  proof (cases items)
    case Nil
    with Inr cycle show ?thesis by (simp add: run_no_items)
  next
    case (Cons z rest)
    let ?P = "\<lambda>i. ItemTitle i \<noteq> Title head"
    note fetch = Inr [unfolded Cons]
    have "\<exists>znow. write_head ''storing head'' f znow (after_Get a (URL f)) = (Return None, a')
      \<and> (Title head = ItemTitle z \<longrightarrow> w' = w \<and> znow = z)
      \<and> (OnNewRecord f = None \<longrightarrow> znow = z)
      \<and> (\<forall>fn calls items1 u'.
            OnNewRecord f = Some fn
            \<and> invoke_each fn [] (takeWhile ?P (z # rest)) (user w) = (calls, items1, u') \<longrightarrow>
              znow = zitem_now z (items1 @ dropWhile ?P (z # rest))
              \<and> invoked w' = invoked w @ calls \<and> user w' = u')
      \<and> (\<forall>fn. OnNewRecord f = Some fn \<and> (\<forall>h i v. fst (snd (fn h i v)) = []) \<longrightarrow> znow = z)"
    proof (cases "takeWhile ?P (z # rest) = []")
      case stop: True
      from run_found_stop [where ParseURL = ParseURL and f = f, OF fetch get_ok found stop] cycle
      have wr: "write_head ''storing head'' f z (after_Get a (URL f)) = (Return None, a')"
        and w': "w' = w"
        by (auto split: prod.splits)
      from stop have drop: "dropWhile ?P (z # rest) = z # rest"
        by (metis append_Nil takeWhile_dropWhile_id)
      have "z = zitem_now z (items1 @ dropWhile ?P (z # rest))
          \<and> invoked w' = invoked w @ calls \<and> user w' = u'"
        if "invoke_each fn [] (takeWhile ?P (z # rest)) (user w) = (calls, items1, u')"
        for fn :: "'a NewItemAction" and calls items1 u'
        using that w' unfolding stop drop by (auto simp: zitem_now_def)
      with wr w' show ?thesis by blast
    next
      case new: False
      then have diff: "Title head \<noteq> ItemTitle z" by (auto split: if_splits)
      show ?thesis
      proof (cases "OnNewRecord f")
        case None
        from run_found_nil_action [where ParseURL = ParseURL and f = f,
            OF fetch get_ok found new None] cycle
        show ?thesis by simp
      next
        case (Some fn)
        obtain calls items1 u' where
          calls: "invoke_each fn [] (takeWhile ?P (z # rest)) (user w) = (calls, items1, u')"
          by (cases "invoke_each fn [] (takeWhile ?P (z # rest)) (user w)")
        let ?znow = "zitem_now z (items1 @ dropWhile ?P (z # rest))"
        from run_found_calls [where ParseURL = ParseURL and f = f,
            OF fetch get_ok found Some calls] cycle loop_exit_not_nil [of calls]
        have wr: "write_head ''storing head'' f ?znow (after_Get a (URL f)) = (Return None, a')"
          and w': "w' = w\<lparr>user := u', invoked := invoked w @ calls\<rparr>"
          by (auto split: option.splits prod.splits)
        have quiet: "?znow = z" if "\<forall>h i v. fst (snd (fn h i v)) = []"
        proof -
          from invoke_each_quiet [OF that calls]
          have "items1 @ dropWhile ?P (z # rest) = z # rest"
            by (simp only: append_Nil takeWhile_dropWhile_id)
          then show ?thesis by (simp add: zitem_now_def)
        qed
        from wr w' diff Some calls quiet show ?thesis
          by (intro exI [of _ ?znow]) auto
      qed
    qed
    then obtain znow where both:
      "write_head ''storing head'' f znow (after_Get a (URL f)) = (Return None, a')
      \<and> (Title head = ItemTitle z \<longrightarrow> w' = w \<and> znow = z)
      \<and> (OnNewRecord f = None \<longrightarrow> znow = z)
      \<and> (\<forall>fn calls items1 u'.
            OnNewRecord f = Some fn
            \<and> invoke_each fn [] (takeWhile ?P (z # rest)) (user w) = (calls, items1, u') \<longrightarrow>
              znow = zitem_now z (items1 @ dropWhile ?P (z # rest))
              \<and> invoked w' = invoked w @ calls \<and> user w' = u')
      \<and> (\<forall>fn. OnNewRecord f = Some fn \<and> (\<forall>h i v. fst (snd (fn h i v)) = []) \<longrightarrow> znow = z)"
      ..
    note wr = both [THEN conjunct1] and rest = both [THEN conjunct2]
    from write_head_cases [OF wr]
    have store: "kv (Store a') = (kv (Store a))(URL f \<mapsto> head_of znow)"
      "oplog (Store a') = oplog (Store a) @ [OpGet (URL f), OpSet (URL f) (head_of znow)]"
      by auto
    have fields: "Title (head_of znow) = ItemTitle znow"
      "Updated (head_of znow) = ItemUpdated znow" "Published (head_of znow) = ItemPublished znow"
      by (simp_all add: head_of_def)
    have same: "Title head = ItemTitle z \<longrightarrow>
        w' = w \<and> znow = z \<and> Title (head_of znow) = Title head"
      using rest [THEN conjunct1] by (auto simp: head_of_def)
    from fetch store fields same rest show ?thesis
      by (intro exI [of _ z] exI [of _ rest] exI [of _ znow]) blast
  qed
qed

theorem run_found_overwrites_head_witness:
  "run (ex_fetch [ex_item ''C'' ''3'', ex_item ''B'' ''2'', ex_item ''A'' ''1'', ex_item ''X'' ''0''])
      (ex_feed (retitle ''MUT''))
      (ex_app (ex_store [''feed.atom'' \<mapsto> head_of (ex_item ''A'' ''1'')]), ex_world)
   = (Return None,
      ex_app \<lparr>kv = [''feed.atom'' \<mapsto> \<lparr>Title = ''MUT'', Updated = ''3'', Published = ''3''\<rparr>],
        get_err = (\<lambda>k. None), set_err = (\<lambda>k v. None),
        oplog = [OpGet ''feed.atom'',
          OpSet ''feed.atom'' \<lparr>Title = ''MUT'', Updated = ''3'', Published = ''3''\<rparr>]\<rparr>,
      \<lparr>user = 2, invoked = [(ex_item ''C'' ''3'', None), (ex_item ''B'' ''2'', None)]\<rparr>)"
proof -
  let ?items = "[ex_item ''C'' ''3'', ex_item ''B'' ''2'', ex_item ''A'' ''1'', ex_item ''X'' ''0'']"
  let ?head = "head_of (ex_item ''A'' ''1'')"
  let ?a = "ex_app (ex_store [''feed.atom'' \<mapsto> ?head])"
  let ?f = "ex_feed (retitle ''MUT'')"
  let ?r = "run (ex_fetch ?items) ?f (?a, ex_world)"
  let ?P = "\<lambda>i. ItemTitle i \<noteq> Title ?head"
  have get_ok: "get_err (Store ?a) (URL ?f) = None" by (simp add: ex_defs)
  have found: "kv (Store ?a) (URL ?f) = Some ?head" by (simp add: ex_defs)
  have url: "URL ?f = ''feed.atom''" by (simp add: ex_feed_def NewFeed_def)
  have action: "OnNewRecord ?f = Some (retitle ''MUT'')" by (simp add: ex_feed_def NewFeed_def)
  have "fst ?r = Return None" by (simp add: run_defs ex_defs)
  then have cycle: "?r = (Return None, fst (snd ?r), snd (snd ?r))"
    by (simp add: prod_eq_iff)
  from run_found_overwrites_head [where ParseURL = "ex_fetch ?items" and f = ?f,
      OF get_ok found cycle]
  obtain zitem rest znow where
    z: "ex_fetch ?items (URL ?f) = Inr (zitem # rest)"
    and store: "kv (Store (fst (snd ?r))) = (kv (Store ?a))(URL ?f \<mapsto> head_of znow)"
    and log: "oplog (Store (fst (snd ?r)))
      = oplog (Store ?a) @ [OpGet (URL ?f), OpSet (URL ?f) (head_of znow)]"
    and now: "\<forall>fn calls items1 u'.
          OnNewRecord ?f = Some fn
          \<and> invoke_each fn [] (takeWhile ?P (zitem # rest)) (user ex_world)
              = (calls, items1, u') \<longrightarrow>
            znow = zitem_now zitem (items1 @ dropWhile ?P (zitem # rest))
            \<and> invoked (snd (snd ?r)) = invoked ex_world @ calls \<and> user (snd (snd ?r)) = u'"
    by blast
  from z url have zr: "zitem # rest = ?items" by (simp add: ex_fetch_def)
  have calls: "invoke_each (retitle ''MUT'') [] (takeWhile ?P ?items) (user ex_world)
      = ([(ex_item ''C'' ''3'', None), (ex_item ''B'' ''2'', None)],
         [(ex_item ''C'' ''3'')\<lparr>ItemTitle := ''MUT''\<rparr>, (ex_item ''B'' ''2'')\<lparr>ItemTitle := ''MUT''\<rparr>],
         2)"
    by (simp add: ex_defs run_defs)
  from now [unfolded zr, rule_format, OF conjI [OF action calls]]
  have znow: "znow = (ex_item ''C'' ''3'')\<lparr>ItemTitle := ''MUT''\<rparr>"
    and world: "invoked (snd (snd ?r)) = [(ex_item ''C'' ''3'', None), (ex_item ''B'' ''2'', None)]"
      "user (snd (snd ?r)) = 2"
    by (simp_all add: zitem_now_def ex_world_def)
  have rest: "get_err (Store (fst (snd ?r))) = (\<lambda>k. None)"
    "set_err (Store (fst (snd ?r))) = (\<lambda>k v. None)" "Feeds (fst (snd ?r)) = []"
    "locked (fst (snd ?r)) = False"
    by (simp_all add: run_defs ex_defs)
  from cycle have x: "fst ?r = Return None" by (simp add: prod_eq_iff)
  from x store log znow world rest url show ?thesis
    by (simp add: prod_eq_iff ex_defs)
qed

text \<open>
  C4, as stated, fails where it calls the overwrite content-equal: with the stored record
  \<open>(C, 3, 3)\<close> and a fetch whose item at index 0 has the title \<open>C\<close> and the timestamps
  \<open>4\<close>, the cycle returns \<^verbatim>\<open>nil\<close>, invokes no callback, and the stored record changes.
\<close>

theorem run_overwrite_not_content_equal:
  "kv (Store (ex_app (ex_store [''feed.atom'' \<mapsto> head_of (ex_item ''C'' ''3'')]))) ''feed.atom''
     = Some (head_of (ex_item ''C'' ''3''))
   \<and> Title (head_of (ex_item ''C'' ''3'')) = ItemTitle (ex_item ''C'' ''4'')
   \<and> fst (run (ex_fetch [ex_item ''C'' ''4'', ex_item ''B'' ''2'']) (ex_feed count_items)
        (ex_app (ex_store [''feed.atom'' \<mapsto> head_of (ex_item ''C'' ''3'')]), ex_world))
       = Return None
   \<and> snd (snd (run (ex_fetch [ex_item ''C'' ''4'', ex_item ''B'' ''2'']) (ex_feed count_items)
        (ex_app (ex_store [''feed.atom'' \<mapsto> head_of (ex_item ''C'' ''3'')]), ex_world)))
       = ex_world
   \<and> kv (Store (fst (snd (run (ex_fetch [ex_item ''C'' ''4'', ex_item ''B'' ''2''])
        (ex_feed count_items)
        (ex_app (ex_store [''feed.atom'' \<mapsto> head_of (ex_item ''C'' ''3'')]), ex_world)))))
        ''feed.atom''
       \<noteq> Some (head_of (ex_item ''C'' ''3''))"
  by (simp add: run_defs ex_defs)

text \<open>
  C5. The claim fails on the code: \<^verbatim>\<open>run\<close> reads \<^verbatim>\<open>feed.Items[0]\<close> without looking at
  the length, so a fetch that succeeds with no items makes the cycle panic, before any
  store call.
\<close>

theorem run_empty_feed_panics:
  "run (\<lambda>url. Inr []) f (a, w) = (Panic ''index out of range [0] with length 0'', a, w)"
  by (simp add: run_def)

text \<open>
  C6. The claim fails on the code: when \<^verbatim>\<open>a.Store.Set\<close> fails, \<^verbatim>\<open>run\<close> returns the error
  between \<^verbatim>\<open>a.Lock()\<close> and \<^verbatim>\<open>a.Unlock()\<close>. With a store whose \<^verbatim>\<open>Set\<close> fails, the mutex,
  free before the cycle, is held after it, in the first-run branch and in the found-head
  branch; a cycle started after that blocks on \<^verbatim>\<open>a.Lock()\<close>.
\<close>

theorem run_set_error_leaves_lock:
  "\<not> locked (ex_app (ex_broken_store Map.empty))
   \<and> fst (run (ex_fetch [ex_item ''C'' ''3'']) (ex_feed count_items)
        (ex_app (ex_broken_store Map.empty), ex_world))
       = Return (Some (Wrap ''storing'' (Err ''disk full'')))
   \<and> locked (fst (snd (run (ex_fetch [ex_item ''C'' ''3'']) (ex_feed count_items)
        (ex_app (ex_broken_store Map.empty), ex_world))))
   \<and> fst (run (ex_fetch [ex_item ''C'' ''3'']) (ex_feed count_items)
        (ex_app (ex_broken_store [''feed.atom'' \<mapsto> head_of (ex_item ''B'' ''2'')]), ex_world))
       = Return (Some (Wrap ''storing head'' (Err ''disk full'')))
   \<and> locked (fst (snd (run (ex_fetch [ex_item ''C'' ''3'']) (ex_feed count_items)
        (ex_app (ex_broken_store [''feed.atom'' \<mapsto> head_of (ex_item ''B'' ''2'')]), ex_world))))
   \<and> fst (run (ex_fetch [ex_item ''C'' ''3'']) (ex_feed count_items)
        (fst (snd (run (ex_fetch [ex_item ''C'' ''3'']) (ex_feed count_items)
           (ex_app (ex_broken_store Map.empty), ex_world))), ex_world))
       = Blocked"
  by (simp add: run_defs ex_defs)

text \<open>
  C7. Every store call of a cycle for the feed \<open>f\<close> has the key \<^verbatim>\<open>f.URL\<close>, and the store's
  entry under every other key is after the cycle what it was before. (The store maps a
  key to at most one head record.)
\<close>

theorem run_store_frame:
  assumes cycle: "run ParseURL f (a, w) = (x, a', w')"
  shows "(\<exists>ops. oplog (Store a') = oplog (Store a) @ ops \<and> (\<forall>op\<in>set ops. op_key op = URL f))
    \<and> (\<forall>k. k \<noteq> URL f \<longrightarrow> kv (Store a') k = kv (Store a) k)"
proof (cases "ParseURL (URL f)")
  case (Inl err)
  with cycle show ?thesis by (auto simp: run_fetch_failed)
next
  case (Inr items)
  show ?thesis
  proof (cases items)
    case Nil
    with Inr cycle show ?thesis by (auto simp: run_no_items)
  next
    case (Cons z rest)
    note fetch = Inr [unfolded Cons]
    show ?thesis
    proof (cases "get_err (Store a) (URL f)")
      case (Some err)
      with fetch cycle have "a' = after_Get a (URL f)" by (auto simp: run_get_failed)
      then show ?thesis by simp
    next
      case None
      have "a' = after_Get a (URL f)
          \<or> (\<exists>ctx zitem. write_head ctx f zitem (after_Get a (URL f)) = (x, a'))"
      proof (cases "kv (Store a) (URL f)")
        case no_head: None
        obtain y a1 where wr: "write_head ''storing'' f z (after_Get a (URL f)) = (y, a1)"
          by (cases "write_head ''storing'' f z (after_Get a (URL f))")
        with fetch None no_head cycle have "x = y" "a' = a1" by (simp_all add: run_first)
        with wr show ?thesis by blast
      next
        case (Some head)
        obtain brk items' w1 where
          loop: "new_records (OnNewRecord f) head [] (z # rest) w = (brk, items', w1)"
          by (cases "new_records (OnNewRecord f) head [] (z # rest) w")
        obtain y a1 where
          wr: "write_head ''storing head'' f (zitem_now z items') (after_Get a (URL f)) = (y, a1)"
          by (cases "write_head ''storing head'' f (zitem_now z items') (after_Get a (URL f))")
        have "run ParseURL f (a, w) =
            (case brk of Some x \<Rightarrow> (x, after_Get a (URL f), w1) | None \<Rightarrow> (y, a1, w1))"
          by (simp only: run_found [where ParseURL = ParseURL and f = f, OF fetch None Some]
              loop wr prod.case)
        with cycle have "a' = after_Get a (URL f) \<or> (x = y \<and> a' = a1)"
          by (cases brk) simp_all
        with wr show ?thesis by blast
      qed
      then show ?thesis
      proof
        assume "a' = after_Get a (URL f)"
        then show ?thesis by simp
      next
        assume "\<exists>ctx zitem. write_head ctx f zitem (after_Get a (URL f)) = (x, a')"
        then obtain ctx zitem where "write_head ctx f zitem (after_Get a (URL f)) = (x, a')"
          by blast
        from write_head_frame [OF this] obtain ops where
          "oplog (Store a') = oplog (Store a) @ (OpGet (URL f) # ops)"
          "\<forall>op\<in>set (OpGet (URL f) # ops). op_key op = URL f"
          and "\<forall>k. k \<noteq> URL f \<longrightarrow> kv (Store a') k = kv (Store a) k"
          by auto
        then show ?thesis by blast
      qed
    qed
  qed
qed

theorem run_store_frame_witness:
  "kv (Store (fst (snd (run (ex_fetch [ex_item ''C'' ''3'', ex_item ''B'' ''2''])
      (ex_feed count_items)
      (ex_app (ex_store [''other.atom'' \<mapsto> head_of (ex_item ''X'' ''0'')]), ex_world)))))
      ''other.atom''
     = Some (head_of (ex_item ''X'' ''0''))
   \<and> list_all (\<lambda>op. op_key op = ''feed.atom'')
        (oplog (Store (fst (snd (run (ex_fetch [ex_item ''C'' ''3'', ex_item ''B'' ''2''])
          (ex_feed count_items)
          (ex_app (ex_store [''other.atom'' \<mapsto> head_of (ex_item ''X'' ''0'')]), ex_world))))))"
proof -
  let ?a = "ex_app (ex_store [''other.atom'' \<mapsto> head_of (ex_item ''X'' ''0'')])"
  let ?f = "ex_feed count_items"
  let ?r = "run (ex_fetch [ex_item ''C'' ''3'', ex_item ''B'' ''2'']) ?f (?a, ex_world)"
  have cycle: "?r = (fst ?r, fst (snd ?r), snd (snd ?r))" by simp
  have url: "URL ?f = ''feed.atom''" and log: "oplog (Store ?a) = []"
    and other: "kv (Store ?a) ''other.atom'' = Some (head_of (ex_item ''X'' ''0''))"
    by (simp_all add: ex_defs)
  from run_store_frame [OF cycle] url log
  have "\<forall>op\<in>set (oplog (Store (fst (snd ?r)))). op_key op = ''feed.atom''"
    and "kv (Store (fst (snd ?r))) ''other.atom'' = kv (Store ?a) ''other.atom''"
    by auto
  with other show ?thesis by (simp add: list_all_iff)
qed

end
